theory Spec2Isabelle
  imports Complex_Main "HOL-Library.Sublist"
begin

section \<open>Strings as the agent uses them\<close>

text \<open>
  The agent (\<^verbatim>\<open>src/agent.js\<close>) works on JavaScript strings. They are modelled as
  \<^typ>\<open>string\<close>, one \<^typ>\<open>char\<close> per code unit, which covers the code units below 256;
  every marker the agent looks for is ASCII. The helpers below are the methods of
  \<^verbatim>\<open>String.prototype\<close> that the agent calls, each with the behaviour ECMAScript gives it.
\<close>

definition is_ws :: "char \<Rightarrow> bool" where
  \<comment> \<open>the white space and line terminator code units below 256 that \<^verbatim>\<open>trim()\<close> strips:
      TAB, LF, VT, FF, CR, SPACE and NBSP\<close>
  "is_ws c \<longleftrightarrow> c \<in> set [CHR 0x09, CHR 0x0A, CHR 0x0B, CHR 0x0C, CHR 0x0D, CHR 0x20, CHR 0xA0]"

definition js_trim :: "string \<Rightarrow> string" where
  "js_trim s = rev (dropWhile is_ws (rev (dropWhile is_ws s)))"

definition startsWith :: "string \<Rightarrow> string \<Rightarrow> bool" where
  "startsWith s p \<longleftrightarrow> prefix p s"

fun index_of :: "string \<Rightarrow> string \<Rightarrow> nat option" where
  \<comment> \<open>\<^verbatim>\<open>s.indexOf(p)\<close>, with \<open>None\<close> for \<^verbatim>\<open>-1\<close>\<close>
  "index_of p [] = (if p = [] then Some 0 else None)"
| "index_of p (c # cs) =
     (if prefix p (c # cs) then Some 0 else map_option Suc (index_of p cs))"

definition str_includes :: "string \<Rightarrow> string \<Rightarrow> bool" where
  \<comment> \<open>\<^verbatim>\<open>s.includes(p)\<close>\<close>
  "str_includes s p \<longleftrightarrow> index_of p s \<noteq> None"

definition replace_first :: "string \<Rightarrow> string \<Rightarrow> string \<Rightarrow> string" where
  \<comment> \<open>\<^verbatim>\<open>s.replace(pat, rep)\<close> for a string pattern and a replacement without \<^verbatim>\<open>$\<close>:
      only the first occurrence is replaced\<close>
  "replace_first pat rep s =
     (case index_of pat s of
        None \<Rightarrow> s
      | Some i \<Rightarrow> take i s @ rep @ drop (i + length pat) s)"

function split_str :: "string \<Rightarrow> string \<Rightarrow> string list" where
  \<comment> \<open>\<^verbatim>\<open>s.split(sep)\<close>: an empty separator splits into code units\<close>
  "split_str sep s =
     (if sep = [] then map (\<lambda>c. [c]) s
      else case index_of sep s of
             None \<Rightarrow> [s]
           | Some i \<Rightarrow> take i s # split_str sep (drop (i + length sep) s))"
  by pat_completeness auto
termination
proof (relation "measure (\<lambda>(sep, s). length s)")
  show "wf (measure (\<lambda>(sep, s). length s))" by simp
next
  fix sep s :: string and i :: nat
  assume ne: "sep \<noteq> []" and idx: "index_of sep s = Some i"
  have "index_of sep s = Some i \<Longrightarrow> i + length sep \<le> length s"
  proof (induction s arbitrary: i)
    case Nil
    then show ?case by (simp split: if_splits)
  next
    case (Cons c cs)
    then show ?case
      by (auto dest: prefix_length_le split: if_splits)
  qed
  with ne idx show "((sep, drop (i + length sep) s), (sep, s)) \<in> measure (\<lambda>(sep, s). length s)"
    by (cases sep) auto
qed

declare split_str.simps [simp del]

fun show_nat :: "nat \<Rightarrow> string" where
  \<comment> \<open>the decimal digits of a number, as a template literal renders it\<close>
  "show_nat n =
     (if n < 10 then [''0123456789'' ! n]
      else show_nat (n div 10) @ [''0123456789'' ! (n mod 10)])"

declare show_nat.simps [simp del]

definition show_int :: "int \<Rightarrow> string" where
  "show_int i = (if i < 0 then ''-'' @ show_nat (nat (- i)) else show_nat (nat i))"

section \<open>Turns of the conversation log\<close>

record message =
  msg_from :: string
  msg_content :: string

record chat_message =
  role :: string
  content :: string

text \<open>
  The inner loop of \<^verbatim>\<open>parseMessages\<close> over the lines of one block, with the three
  variables it updates: \<^verbatim>\<open>from\<close> (\<open>None\<close> for \<^verbatim>\<open>null\<close>), \<^verbatim>\<open>messageContent\<close> and
  \<^verbatim>\<open>foundContent\<close>. The \<^verbatim>\<open>i++\<close> after a timestamp line skips the next line.
\<close>

fun scan_lines :: "string list \<Rightarrow> string option \<Rightarrow> string \<Rightarrow> bool \<Rightarrow> string option \<times> string" where
  "scan_lines [] frm messageContent foundContent = (frm, messageContent)"
| "scan_lines (l # ls) frm messageContent foundContent =
     (if startsWith l ''**From:**''
        then scan_lines ls (Some (js_trim (replace_first ''**From:**'' '''' l))) messageContent foundContent
      else if startsWith l ''**Timestamp:**''
        then scan_lines (drop 1 ls) frm messageContent True
      else if foundContent
        then scan_lines ls frm (messageContent @ l @ ''\<newline>'') foundContent
      else scan_lines ls frm messageContent foundContent)"

definition parse_block :: "string \<Rightarrow> message option" where
  \<comment> \<open>one iteration of the loop over the blocks: the turn it pushes, if any\<close>
  "parse_block block =
     (let lines = split_str ''\<newline>'' (js_trim block)
      in case scan_lines lines None [] False of
           (None, messageContent) \<Rightarrow> None
         | (Some frm, messageContent) \<Rightarrow>
             if frm \<noteq> [] \<and> js_trim messageContent \<noteq> []
             then Some \<lparr>msg_from = frm, msg_content = js_trim messageContent\<rparr>
             else None)"

definition keep_block :: "string \<Rightarrow> bool" where
  \<comment> \<open>the filter \<^verbatim>\<open>b => b.trim() && !b.includes('# Messages from Poke')\<close>\<close>
  "keep_block b \<longleftrightarrow> js_trim b \<noteq> [] \<and> \<not> str_includes b ''# Messages from Poke''"

definition push_block :: "string \<Rightarrow> message list \<Rightarrow> message list" where
  "push_block block messages =
     (case parse_block block of None \<Rightarrow> messages | Some m \<Rightarrow> messages @ [m])"

definition parseMessages :: "string \<Rightarrow> message list" where
  "parseMessages content_str =
     (let blocks = filter keep_block (split_str ''---\<newline>'' content_str)
      in fold push_block blocks [])"

definition needsResponse :: "message list \<Rightarrow> message option" where
  "needsResponse messages =
     (if length messages = 0 then None
      else let lastMessage = messages ! (length messages - 1)
           in if msg_from lastMessage = ''Claude'' then None else Some lastMessage)"

definition js_slice :: "int \<Rightarrow> 'a list \<Rightarrow> 'a list" where
  \<comment> \<open>\<^verbatim>\<open>xs.slice(start)\<close>: a negative start counts from the end, clamped at the front\<close>
  "js_slice start xs =
     (let len = int (length xs);
          k = (if start < 0 then max (len + start) 0 else min start len)
      in drop (nat k) xs)"

definition push_turn :: "message \<Rightarrow> chat_message list \<Rightarrow> chat_message list" where
  "push_turn msg conversationMessages =
     (if msg_from msg = ''Claude''
      then conversationMessages @ [\<lparr>role = ''assistant'', content = msg_content msg\<rparr>]
      else conversationMessages @ [\<lparr>role = ''user'', content = msg_content msg\<rparr>])"

definition buildConversationHistory :: "message list \<Rightarrow> chat_message list" where
  "buildConversationHistory messages =
     (let recentMessages = js_slice (- 10) messages
      in fold push_turn recentMessages [])"

section \<open>The outside world of one cycle\<close>

text \<open>
  Every network exchange of the agent is a \<^verbatim>\<open>fetch\<close> whose outcome the agent inspects:
  the promise is rejected or the body cannot be read (\<open>Rejected\<close>), the response is not
  \<^verbatim>\<open>ok\<close> (\<open>NotOk\<close> with the status), or it is \<^verbatim>\<open>ok\<close> and carries the payload the
  agent reads from it.
\<close>

datatype 'a response = Rejected | NotOk nat | Ok 'a

datatype error =
    TransportError
  | GitHubFetchFailed nat
  | ClaudeApiError nat
  | PokeApiError nat
  | GitHubCommitFailed nat
  | TasksFetchFailed nat
  | TaskCreateFailed nat

record js_date =
  getTime :: int
  getHours :: nat
  toISOString :: string
  toTimeString :: string

datatype call_site = Proactive | Reply

text \<open>
  What a cycle does to the outside world, in order: one event per request sent and per
  error written to the console.
\<close>

datatype event =
    ContextFetched
  | TasksChecked
  | ProactivePrompt
  | PokeSend call_site string
  | MessagesFetched
  | ClaudeCall "chat_message list" string "string list"
  | TasksGet
  | TasksPut string "string option"
  | MessagesPut string string
  | ErrorLogged error

record task_world =
  tw_get :: "(string \<times> string) response"
  tw_now :: js_date
  tw_put :: "unit response"

record world =
  w_fullContext :: string
  w_completedTasks :: "string list"
  w_now_gate :: int
  w_hour :: nat
  w_proactive :: "string response"
  w_poke_proactive :: "unit response"
  w_now_sent :: int
  w_messages :: "(string \<times> string) response"
  w_claude :: "string response"
  w_tasks :: "nat \<Rightarrow> task_world"
  w_poke_reply :: "unit response"
  w_log_date :: js_date
  w_log_put :: "string response"

record agent_state =
  lastProcessedHash :: "string option"
  isProcessing :: bool
  lastProactiveMessage :: int

section \<open>The requests\<close>

definition fetchMessages :: "(string \<times> string) response \<Rightarrow> (error + string \<times> string) \<times> event list" where
  "fetchMessages r =
     (case r of
        Rejected \<Rightarrow> (Inl TransportError, [MessagesFetched])
      | NotOk status \<Rightarrow> (Inl (GitHubFetchFailed status), [MessagesFetched])
      | Ok (content_str, sha) \<Rightarrow> (Inr (content_str, sha), [MessagesFetched]))"

definition callClaude ::
  "string response \<Rightarrow> chat_message list \<Rightarrow> string \<Rightarrow> string list \<Rightarrow> (error + string) \<times> event list" where
  "callClaude r conversationMessages fullContext completedTasks =
     (case r of
        Rejected \<Rightarrow>
          (Inl TransportError, [ClaudeCall conversationMessages fullContext completedTasks])
      | NotOk status \<Rightarrow>
          (Inl (ClaudeApiError status), [ClaudeCall conversationMessages fullContext completedTasks])
      | Ok text \<Rightarrow> (Inr text, [ClaudeCall conversationMessages fullContext completedTasks]))"

definition sendToPoke :: "call_site \<Rightarrow> unit response \<Rightarrow> string \<Rightarrow> (error + unit) \<times> event list" where
  \<comment> \<open>the call site is not an argument of the source function: it tells the two calls of
      \<^verbatim>\<open>processMessages\<close> apart in the trace\<close>
  "sendToPoke site r message =
     (case r of
        Rejected \<Rightarrow> (Inl TransportError, [PokeSend site message])
      | NotOk status \<Rightarrow> (Inl (PokeApiError status), [PokeSend site message])
      | Ok u \<Rightarrow> (Inr (), [PokeSend site message]))"

definition claudeLogEntry :: "js_date \<Rightarrow> string \<Rightarrow> string" where
  "claudeLogEntry now replyMessage =
     (let dateStr = split_str ''T'' (toISOString now) ! 0;
          timeStr = split_str '' '' (toTimeString now) ! 0
      in ''\<newline>## '' @ dateStr @ '' '' @ timeStr @ '' - Claude Response\<newline>\<newline>''
         @ ''**From:** Claude\<newline>**In Response To:** caleb_newton\<newline>**Timestamp:** ''
         @ toISOString now @ ''\<newline>\<newline>'' @ replyMessage @ ''\<newline>\<newline>---\<newline>'')"

definition logToGitHub ::
  "js_date \<Rightarrow> string response \<Rightarrow> string \<Rightarrow> string \<Rightarrow> string \<Rightarrow> (error + string) \<times> event list" where
  \<comment> \<open>returns \<^verbatim>\<open>result.content.sha\<close>, the only part of the result the caller keeps\<close>
  "logToGitHub now r content_str sha replyMessage =
     (let updatedContent = content_str @ claudeLogEntry now replyMessage
      in case r of
           Rejected \<Rightarrow> (Inl TransportError, [MessagesPut updatedContent sha])
         | NotOk status \<Rightarrow> (Inl (GitHubCommitFailed status), [MessagesPut updatedContent sha])
         | Ok newSha \<Rightarrow> (Inr newSha, [MessagesPut updatedContent sha]))"

definition tasks_seed :: string where
  "tasks_seed = ''# Tasks for Local Agents\<newline>\<newline>Tasks created by the cloud agent for local agents to complete.\<newline>\<newline>---\<newline>\<newline>''"

definition taskEntry :: "string \<Rightarrow> js_date \<Rightarrow> string \<Rightarrow> string \<Rightarrow> string" where
  "taskEntry taskId now priority taskDescription =
     ''## '' @ taskId @ ''\<newline>\<newline>**Created:** '' @ toISOString now
     @ ''\<newline>**Priority:** '' @ priority
     @ ''\<newline>**Status:** pending\<newline>\<newline>'' @ taskDescription @ ''\<newline>\<newline>---\<newline>\<newline>''"

definition commitTask ::
  "task_world \<Rightarrow> string \<Rightarrow> string option \<Rightarrow> string \<Rightarrow> string \<Rightarrow> string option \<times> event list" where
  \<comment> \<open>\<^verbatim>\<open>createTask\<close> from "Create task entry" on, with the \<^verbatim>\<open>catch\<close> around it\<close>
  "commitTask tw currentContent currentSha taskDescription priority =
     (let now = tw_now tw;
          taskId = ''task_'' @ show_int (getTime now);
          updatedContent = currentContent @ taskEntry taskId now priority taskDescription
      in case tw_put tw of
           Rejected \<Rightarrow> (None, [TasksPut updatedContent currentSha, ErrorLogged TransportError])
         | NotOk status \<Rightarrow>
             (None, [TasksPut updatedContent currentSha, ErrorLogged (TaskCreateFailed status)])
         | Ok u \<Rightarrow> (Some taskId, [TasksPut updatedContent currentSha]))"

definition createTask :: "task_world \<Rightarrow> string \<Rightarrow> string \<Rightarrow> string option \<times> event list" where
  \<comment> \<open>\<open>None\<close> is the \<^verbatim>\<open>null\<close> the \<^verbatim>\<open>catch\<close> returns; a sha that is the empty string is
      falsy and is left out of the request\<close>
  "createTask tw taskDescription priority =
     (case tw_get tw of
        Rejected \<Rightarrow> (None, [TasksGet, ErrorLogged TransportError])
      | Ok (currentContent, sha) \<Rightarrow>
          (case commitTask tw currentContent (if sha = [] then None else Some sha) taskDescription priority of
             (taskId, evs) \<Rightarrow> (taskId, TasksGet # evs))
      | NotOk status \<Rightarrow>
          if status = 404
          then (case commitTask tw tasks_seed None taskDescription priority of
                  (taskId, evs) \<Rightarrow> (taskId, TasksGet # evs))
          else (None, [TasksGet, ErrorLogged (TasksFetchFailed status)]))"

definition checkForProactiveUpdates :: "world \<Rightarrow> agent_state \<Rightarrow> (error + string option) \<times> event list" where
  \<comment> \<open>the two clock readings are whole milliseconds, so the quotient is below 24 exactly
      when the difference is below 86400000, in floating point as in the reals\<close>
  "checkForProactiveUpdates w st =
     (let hoursSinceLastMessage = real_of_int (w_now_gate w - lastProactiveMessage st) / (1000 * 60 * 60)
      in if hoursSinceLastMessage < 24 then (Inr None, [])
         else let currentHour = w_hour w
              in if currentHour < 9 \<or> currentHour > 20 then (Inr None, [])
                 else case w_proactive w of
                        Rejected \<Rightarrow> (Inl TransportError, [ProactivePrompt])
                      | NotOk status \<Rightarrow> (Inr None, [ProactivePrompt])
                      | Ok text \<Rightarrow>
                          let message = js_trim text
                          in if message \<noteq> ''SKIP'' \<and> \<not> str_includes message ''SKIP''
                             then (Inr (Some message), [ProactivePrompt])
                             else (Inr None, [ProactivePrompt]))"

section \<open>Task directives in the generated response\<close>

text \<open>
  The regular expression
  \<^verbatim>\<open>/\[CREATE_TASK priority=(high|normal|low)\]([\s\S]*?)\[\/CREATE_TASK\]/g\<close>
  as a matcher. At one start position: the opening text, the first alternative of the
  group that is followed by \<^verbatim>\<open>]\<close>, then the shortest body, which ends at the first
  closing tag. \<^verbatim>\<open>exec\<close> tries the start positions from left to right and resumes
  after the end of the last match.
\<close>

record task_match =
  whole :: string
  priority :: string
  body :: string

definition task_open :: string where
  "task_open = ''[CREATE_TASK priority=''"

definition task_close :: string where
  "task_close = ''[/CREATE_TASK]''"

definition match_priority :: "string \<Rightarrow> string option" where
  "match_priority s = find (\<lambda>p. prefix (p @ '']'') s) [''high'', ''normal'', ''low'']"

definition match_task_at :: "string \<Rightarrow> (task_match \<times> string) option" where
  \<comment> \<open>the match at the head of the input, if there is one, and the input after it\<close>
  "match_task_at s =
     (if prefix task_open s then
        (let s1 = drop (length task_open) s
         in case match_priority s1 of
              None \<Rightarrow> None
            | Some p \<Rightarrow>
                (let s2 = drop (length p + 1) s1
                 in case index_of task_close s2 of
                      None \<Rightarrow> None
                    | Some k \<Rightarrow>
                        Some (\<lparr>whole = task_open @ p @ '']'' @ take k s2 @ task_close,
                               priority = p, body = take k s2\<rparr>,
                              drop (k + length task_close) s2)))
      else None)"

function task_matches :: "string \<Rightarrow> task_match list" where
  "task_matches s =
     (case match_task_at s of
        Some (m, rest) \<Rightarrow> m # task_matches rest
      | None \<Rightarrow> (case s of [] \<Rightarrow> [] | c # cs \<Rightarrow> task_matches cs))"
  by pat_completeness auto
termination
proof (relation "measure length")
  show "wf (measure length)" by simp
next
  fix s rest :: string and m :: task_match and x :: "task_match \<times> string"
  assume "match_task_at s = Some x" and "(m, rest) = x"
  then have "match_task_at s = Some (m, rest)" by simp
  then have "length rest < length s"
    by (auto simp: match_task_at_def task_open_def prefix_def Let_def
             split: if_splits option.splits)
  then show "(rest, s) \<in> measure length" by simp
next
  fix s cs :: string and c :: char
  assume "s = c # cs"
  then show "(cs, s) \<in> measure length" by simp
qed

declare task_matches.simps [simp del]

definition task_step :: "task_world \<Rightarrow> task_match \<Rightarrow> string \<Rightarrow> string \<times> event list" where
  \<comment> \<open>one iteration of the loop over the matches, on \<^verbatim>\<open>responseForUser\<close>\<close>
  "task_step tw m responseForUser =
     (let taskDescription = js_trim (body m)
      in case createTask tw taskDescription (priority m) of
           (Some taskId, evs) \<Rightarrow>
             (replace_first (whole m) (''[Task created: '' @ taskId @ '']'') responseForUser, evs)
         | (None, evs) \<Rightarrow> (responseForUser, evs))"

fun run_tasks :: "(nat \<Rightarrow> task_world) \<Rightarrow> nat \<Rightarrow> task_match list \<Rightarrow> string \<Rightarrow> string \<times> event list" where
  \<comment> \<open>the \<open>k\<close>-th call of \<^verbatim>\<open>createTask\<close> in the cycle meets the \<open>k\<close>-th task world\<close>
  "run_tasks tws k [] responseForUser = (responseForUser, [])"
| "run_tasks tws k (m # ms) responseForUser =
     (case task_step (tws k) m responseForUser of
        (responseForUser', evs) \<Rightarrow>
          (case run_tasks tws (Suc k) ms responseForUser' of
             (final, evs') \<Rightarrow> (final, evs @ evs')))"

section \<open>One cycle\<close>

definition proactive_step ::
  "world \<Rightarrow> agent_state \<Rightarrow> string option \<Rightarrow> (error + unit) \<times> agent_state \<times> event list" where
  \<comment> \<open>\<^verbatim>\<open>if (proactiveMessage) { await sendToPoke(...); lastProactiveMessage = Date.now() }\<close>:
      the empty string is falsy\<close>
  "proactive_step w st proactiveMessage =
     (case proactiveMessage of
        None \<Rightarrow> (Inr (), st, [])
      | Some message \<Rightarrow>
          if message = [] then (Inr (), st, [])
          else (case sendToPoke Proactive (w_poke_proactive w) message of
                  (Inl e, evs) \<Rightarrow> (Inl e, st, evs)
                | (Inr u, evs) \<Rightarrow> (Inr (), st\<lparr>lastProactiveMessage := w_now_sent w\<rparr>, evs)))"

definition reply_step ::
  "world \<Rightarrow> agent_state \<Rightarrow> string \<Rightarrow> string \<Rightarrow> message list \<Rightarrow> agent_state \<times> event list \<times> error option" where
  \<comment> \<open>from "Build conversation history" to the end of the \<^verbatim>\<open>try\<close> block\<close>
  "reply_step w st content_str sha messages =
     (let conversationMessages = buildConversationHistory messages
      in case callClaude (w_claude w) conversationMessages (w_fullContext w) (w_completedTasks w) of
           (Inl e, ev1) \<Rightarrow> (st, ev1, Some e)
         | (Inr claudeResponse, ev1) \<Rightarrow>
             (case run_tasks (w_tasks w) 0 (task_matches claudeResponse) claudeResponse of
                (responseForUser, ev2) \<Rightarrow>
                  (case sendToPoke Reply (w_poke_reply w) responseForUser of
                     (Inl e, ev3) \<Rightarrow> (st, ev1 @ ev2 @ ev3, Some e)
                   | (Inr u, ev3) \<Rightarrow>
                       (case logToGitHub (w_log_date w) (w_log_put w) content_str sha responseForUser of
                          (Inl e, ev4) \<Rightarrow> (st, ev1 @ ev2 @ ev3 @ ev4, Some e)
                        | (Inr newSha, ev4) \<Rightarrow>
                            (st\<lparr>lastProcessedHash := Some newSha\<rparr>, ev1 @ ev2 @ ev3 @ ev4, None)))))"

definition respond_step :: "world \<Rightarrow> agent_state \<Rightarrow> agent_state \<times> event list \<times> error option" where
  \<comment> \<open>from "Fetch latest messages from GitHub" on\<close>
  "respond_step w st =
     (case fetchMessages (w_messages w) of
        (Inl e, ev0) \<Rightarrow> (st, ev0, Some e)
      | (Inr (content_str, sha), ev0) \<Rightarrow>
          if Some sha = lastProcessedHash st then (st, ev0, None)
          else (let messages = parseMessages content_str
                in case needsResponse messages of
                     None \<Rightarrow> (st\<lparr>lastProcessedHash := Some sha\<rparr>, ev0, None)
                   | Some messageNeedingResponse \<Rightarrow>
                       (case reply_step w st content_str sha messages of
                          (st', evs, err) \<Rightarrow> (st', ev0 @ evs, err))))"

definition cycle_body :: "world \<Rightarrow> agent_state \<Rightarrow> agent_state \<times> event list \<times> error option" where
  \<comment> \<open>the \<^verbatim>\<open>try\<close> block of \<^verbatim>\<open>processMessages\<close>: the state it leaves, what it did, and the
      error it threw, if any. \<^verbatim>\<open>loadFullContext\<close> and \<^verbatim>\<open>checkCompletedTasks\<close> catch
      their own errors.\<close>
  "cycle_body w st =
     (case checkForProactiveUpdates w st of
        (Inl e, ev1) \<Rightarrow> (st, [ContextFetched, TasksChecked] @ ev1, Some e)
      | (Inr proactiveMessage, ev1) \<Rightarrow>
          (case proactive_step w st proactiveMessage of
             (Inl e, st1, ev2) \<Rightarrow> (st1, [ContextFetched, TasksChecked] @ ev1 @ ev2, Some e)
           | (Inr u, st1, ev2) \<Rightarrow>
               (case respond_step w st1 of
                  (st2, ev3, err) \<Rightarrow> (st2, [ContextFetched, TasksChecked] @ ev1 @ ev2 @ ev3, err))))"

definition processMessages :: "world \<Rightarrow> agent_state \<Rightarrow> agent_state \<times> event list" where
  \<comment> \<open>the guard, the \<^verbatim>\<open>try\<close> block, the \<^verbatim>\<open>catch\<close> that logs, the \<^verbatim>\<open>finally\<close> that clears
      the flag\<close>
  "processMessages w st =
     (if isProcessing st then (st, [])
      else (case cycle_body w (st\<lparr>isProcessing := True\<rparr>) of
              (st', evs, err) \<Rightarrow>
                (st'\<lparr>isProcessing := False\<rparr>,
                 evs @ (case err of None \<Rightarrow> [] | Some e \<Rightarrow> [ErrorLogged e]))))"

section \<open>Reading a trace\<close>

text \<open>
  The events that answer a message: the call of \<^verbatim>\<open>callClaude\<close>, the reply sent to the
  notification channel, the append to the conversation log.
\<close>

fun reply_event :: "event \<Rightarrow> bool" where
  "reply_event (ClaudeCall c ctx tasks) = True"
| "reply_event (PokeSend Reply m) = True"
| "reply_event (MessagesPut c s) = True"
| "reply_event e = False"

text \<open>The requests to the task ledger, which only the execution of a directive makes.\<close>

fun task_event :: "event \<Rightarrow> bool" where
  "task_event TasksGet = True"
| "task_event (TasksPut c s) = True"
| "task_event e = False"

text \<open>
  The requests to the generative provider: the prompt of \<^verbatim>\<open>checkForProactiveUpdates\<close>
  and the call of \<^verbatim>\<open>callClaude\<close>.
\<close>

fun generative_call :: "event \<Rightarrow> bool" where
  "generative_call ProactivePrompt = True"
| "generative_call (ClaudeCall c ctx tasks) = True"
| "generative_call e = False"

fun proactive_send :: "event \<Rightarrow> bool" where
  "proactive_send (PokeSend Proactive m) = True"
| "proactive_send e = False"

text \<open>
  The number in a task id: the decimal number after \<^verbatim>\<open>task_\<close>, which is how the ids
  are ordered.
\<close>

definition digit_value :: "char \<Rightarrow> nat" where
  "digit_value c = of_char c - 48"

definition read_nat :: "string \<Rightarrow> nat" where
  "read_nat s = foldl (\<lambda>a c. 10 * a + digit_value c) 0 s"

definition read_int :: "string \<Rightarrow> int" where
  "read_int s =
     (case s of
        [] \<Rightarrow> 0
      | c # cs \<Rightarrow> if c = CHR ''-'' then - int (read_nat cs) else int (read_nat s))"

definition task_number :: "string \<Rightarrow> int" where
  "task_number taskId = read_int (drop (length ''task_'') taskId)"

section \<open>Example runs\<close>

definition example_date :: js_date where
  "example_date =
     \<lparr>getTime = 1700000000000, getHours = 14,
      toISOString = ''2023-11-14T22:13:20.000Z'',
      toTimeString = ''14:13:20 GMT-0800 (Pacific Standard Time)''\<rparr>"

definition example_task_world :: task_world where
  "example_task_world = \<lparr>tw_get = Ok (''# Tasks\<newline>'', ''t1''), tw_now = example_date, tw_put = Ok ()\<rparr>"

definition example_log :: string where
  "example_log = ''## Message\<newline>**From:** caleb\<newline>**Timestamp:** t\<newline>\<newline>run the tests\<newline>\<newline>---\<newline>''"

definition answered_log :: string where
  "answered_log = example_log @ ''## Claude Response\<newline>**From:** Claude\<newline>**Timestamp:** t\<newline>\<newline>done\<newline>\<newline>---\<newline>''"

text \<open>
  A world at 14 h local time, 25 hours after the last proactive message of
  \<open>example_state\<close>, in which the provider answers the proactive prompt with SKIP and the
  conversation log is at the version \<open>example_state\<close> has seen.
\<close>

definition example_world :: world where
  "example_world =
     \<lparr>w_fullContext = ''context'', w_completedTasks = [],
      w_now_gate = 1700000000000, w_hour = 14,
      w_proactive = Ok ''SKIP'', w_poke_proactive = Ok (),
      w_now_sent = 1700000000900,
      w_messages = Ok (example_log, ''sha1''),
      w_claude = Ok ''On it. [CREATE_TASK priority=high]bash: npm test[/CREATE_TASK]'',
      w_tasks = (\<lambda>k. example_task_world),
      w_poke_reply = Ok (),
      w_log_date = example_date,
      w_log_put = Ok ''sha2''\<rparr>"

definition example_state :: agent_state where
  "example_state =
     \<lparr>lastProcessedHash = Some ''sha1'', isProcessing = False,
      lastProactiveMessage = 1699910000000\<rparr>"

text \<open>
  A state that has seen no version of the log yet, task worlds whose commit is refused
  or whose clock reads 250 ms later, and generated responses with one and with two task
  directives.
\<close>

definition two_tasks :: string where
  "two_tasks = ''[CREATE_TASK priority=high]a[/CREATE_TASK][CREATE_TASK priority=low]b[/CREATE_TASK]''"


definition fresh_state :: agent_state where
  "fresh_state = example_state\<lparr>lastProcessedHash := None\<rparr>"

definition later_task_world :: task_world where
  "later_task_world = example_task_world\<lparr>tw_now := example_date\<lparr>getTime := 1700000000250\<rparr>\<rparr>"



text \<open>A block with the title of the preamble in it, a speaker line and a body.\<close>

definition headed_block :: string where
  "headed_block = ''# Messages from Poke\<newline>**From:** caleb\<newline>**Timestamp:** t\<newline>\<newline>hello\<newline>''"

section \<open>Properties\<close>

subsection \<open>The conversation window\<close>

lemma fold_push_turn:
  "fold push_turn xs acc =
     acc @ map (\<lambda>m. \<lparr>role = (if msg_from m = ''Claude'' then ''assistant'' else ''user''),
                       content = msg_content m\<rparr>) xs"
  by (induction xs arbitrary: acc) (simp_all add: push_turn_def)

lemma js_slice_last: "0 < k \<Longrightarrow> js_slice (- int k) xs = drop (length xs - k) xs"
  by (simp add: js_slice_def Let_def max_def nat_diff_distrib')

text \<open>
  C6. For every list of turns, \<^verbatim>\<open>buildConversationHistory\<close> returns the trailing
  \<open>min n 10\<close> turns in their order, the speaker Claude as role assistant and every
  other speaker as role user, each content the body of its turn. The function is total:
  it has a value on every list.
\<close>

theorem buildConversationHistory_window:
  "buildConversationHistory messages =
     map (\<lambda>m. \<lparr>role = (if msg_from m = ''Claude'' then ''assistant'' else ''user''),
                 content = msg_content m\<rparr>)
         (drop (length messages - min (length messages) 10) messages)
   \<and> length (buildConversationHistory messages) = min (length messages) 10"
proof -
  have "js_slice (- 10) messages = drop (length messages - 10) messages"
    using js_slice_last [of 10 messages] by simp
  moreover have "length messages - min (length messages) 10 = length messages - 10"
    by simp
  ultimately show ?thesis
    by (simp add: buildConversationHistory_def fold_push_turn)
qed

text \<open>Twelve turns: the window holds the last ten.\<close>

theorem buildConversationHistory_window_witness:
  "buildConversationHistory
     (map (\<lambda>n. \<lparr>msg_from = (if even n then ''Claude'' else ''caleb''), msg_content = show_nat n\<rparr>)
        [0, 1, 2, 3, 4, 5, 6, 7, 8, 9, 10, 11])
   = [\<lparr>role = ''assistant'', content = ''2''\<rparr>, \<lparr>role = ''user'', content = ''3''\<rparr>,
      \<lparr>role = ''assistant'', content = ''4''\<rparr>, \<lparr>role = ''user'', content = ''5''\<rparr>,
      \<lparr>role = ''assistant'', content = ''6''\<rparr>, \<lparr>role = ''user'', content = ''7''\<rparr>,
      \<lparr>role = ''assistant'', content = ''8''\<rparr>, \<lparr>role = ''user'', content = ''9''\<rparr>,
      \<lparr>role = ''assistant'', content = ''10''\<rparr>, \<lparr>role = ''user'', content = ''11''\<rparr>]"
  using buildConversationHistory_window
    [of "map (\<lambda>n. \<lparr>msg_from = (if even n then ''Claude'' else ''caleb''), msg_content = show_nat n\<rparr>)
        [0, 1, 2, 3, 4, 5, 6, 7, 8, 9, 10, 11]"]
  by (simp add: show_nat.simps)

subsection \<open>The outcomes of the steps of a cycle\<close>

lemma check_outcomes:
  "checkForProactiveUpdates w st = (Inr None, [])
   \<or> (\<exists>e. checkForProactiveUpdates w st = (Inl e, [ProactivePrompt]))
   \<or> (\<exists>pm. checkForProactiveUpdates w st = (Inr pm, [ProactivePrompt]))"
  by (simp add: checkForProactiveUpdates_def Let_def split: response.splits)

lemma check_cases:
  obtains (closed) "checkForProactiveUpdates w st = (Inr None, [])"
  | (threw) e where "checkForProactiveUpdates w st = (Inl e, [ProactivePrompt])"
  | (asked) pm where "checkForProactiveUpdates w st = (Inr pm, [ProactivePrompt])"
  using check_outcomes [of w st] by blast

lemma proactive_step_outcomes:
  "proactive_step w st pm = (Inr (), st, [])
   \<or> (\<exists>e m. pm = Some m \<and> m \<noteq> [] \<and> w_poke_proactive w \<noteq> Ok ()
        \<and> proactive_step w st pm = (Inl e, st, [PokeSend Proactive m]))
   \<or> (\<exists>m. pm = Some m \<and> m \<noteq> [] \<and> w_poke_proactive w = Ok ()
        \<and> proactive_step w st pm =
            (Inr (), st\<lparr>lastProactiveMessage := w_now_sent w\<rparr>, [PokeSend Proactive m]))"
  by (cases pm; cases "w_poke_proactive w")
     (simp_all add: proactive_step_def sendToPoke_def)

lemma proactive_step_cases:
  obtains (skip) "proactive_step w st pm = (Inr (), st, [])"
  | (failed) e m where "pm = Some m" "m \<noteq> []" "w_poke_proactive w \<noteq> Ok ()"
      "proactive_step w st pm = (Inl e, st, [PokeSend Proactive m])"
  | (sent) m where "pm = Some m" "m \<noteq> []" "w_poke_proactive w = Ok ()"
      "proactive_step w st pm =
         (Inr (), st\<lparr>lastProactiveMessage := w_now_sent w\<rparr>, [PokeSend Proactive m])"
  using proactive_step_outcomes [of w st pm] by blast

lemma respond_step_unchanged:
  "w_messages w = Ok (c, s) \<Longrightarrow> lastProcessedHash st = Some s \<Longrightarrow>
   respond_step w st = (st, [MessagesFetched], None)"
  by (simp add: respond_step_def fetchMessages_def)





lemma example_run:
  "processMessages example_world example_state =
     (example_state, [ContextFetched, TasksChecked, ProactivePrompt, MessagesFetched])"
  by (simp add: processMessages_def cycle_body_def checkForProactiveUpdates_def
        proactive_step_def respond_step_def fetchMessages_def example_world_def
        example_state_def js_trim_def is_ws_def str_includes_def)

lemma check_flag:
  "checkForProactiveUpdates w (st\<lparr>isProcessing := b\<rparr>) = checkForProactiveUpdates w st"
  by (simp add: checkForProactiveUpdates_def)

lemma check_events:
  "snd (checkForProactiveUpdates w st) =
     (if 86400000 \<le> w_now_gate w - lastProactiveMessage st \<and> 9 \<le> w_hour w \<and> w_hour w \<le> 20
      then [ProactivePrompt] else [])"
  by (auto simp add: checkForProactiveUpdates_def Let_def split: response.splits)

lemma check_gate:
  "checkForProactiveUpdates w st = (Inr (Some m), evs) \<Longrightarrow>
   86400000 \<le> w_now_gate w - lastProactiveMessage st \<and> 9 \<le> w_hour w \<and> w_hour w \<le> 20"
  by (auto simp add: checkForProactiveUpdates_def Let_def split: response.splits if_splits)

lemma createTask_no_proactive:
  "createTask tw d p = (r, evs) \<Longrightarrow> filter proactive_send evs = []"
  by (auto simp add: createTask_def commitTask_def Let_def
           split: response.splits prod.splits if_splits)

lemma task_step_no_proactive:
  "task_step tw m r = (r', evs) \<Longrightarrow> filter proactive_send evs = []"
  by (auto simp add: task_step_def Let_def dest: createTask_no_proactive
           split: prod.splits option.splits)

lemma run_tasks_no_proactive:
  "run_tasks tws k ms r = (r', evs) \<Longrightarrow> filter proactive_send evs = []"
proof (induction ms arbitrary: k r r' evs)
  case Nil
  then show ?case by simp
next
  case (Cons m ms)
  obtain r1 ev1 where step: "task_step (tws k) m r = (r1, ev1)"
    by (cases "task_step (tws k) m r")
  obtain r2 ev2 where rest: "run_tasks tws (Suc k) ms r1 = (r2, ev2)"
    by (cases "run_tasks tws (Suc k) ms r1")
  from Cons.prems step rest have "evs = ev1 @ ev2" by simp
  then show ?case
    using task_step_no_proactive [OF step] Cons.IH [OF rest] by simp
qed

lemma reply_step_frame:
  "reply_step w st c s ms = (st', evs, err) \<Longrightarrow>
   lastProactiveMessage st' = lastProactiveMessage st \<and> filter proactive_send evs = []"
  by (auto simp add: reply_step_def Let_def callClaude_def sendToPoke_def logToGitHub_def
           dest: run_tasks_no_proactive
           split: prod.splits sum.splits response.splits)

lemma respond_step_frame:
  "respond_step w st = (st', evs, err) \<Longrightarrow>
   lastProactiveMessage st' = lastProactiveMessage st \<and> filter proactive_send evs = []"
  by (auto simp add: respond_step_def Let_def fetchMessages_def dest: reply_step_frame
           split: prod.splits sum.splits option.splits if_splits response.splits)

lemma proactive_part:
  assumes idle: "\<not> isProcessing st"
  shows "filter proactive_send (snd (processMessages w st)) =
           (case fst (checkForProactiveUpdates w st) of
              Inr (Some m) \<Rightarrow> if m = [] then [] else [PokeSend Proactive m]
            | _ \<Rightarrow> [])
       \<and> lastProactiveMessage (fst (processMessages w st)) =
           (case fst (checkForProactiveUpdates w st) of
              Inr (Some m) \<Rightarrow>
                if m \<noteq> [] \<and> w_poke_proactive w = Ok () then w_now_sent w
                else lastProactiveMessage st
            | _ \<Rightarrow> lastProactiveMessage st)"
proof -
  let ?st = "st\<lparr>isProcessing := True\<rparr>"
  obtain r ev1 where chk: "checkForProactiveUpdates w ?st = (r, ev1)"
    by (cases "checkForProactiveUpdates w ?st")
  then have chk': "checkForProactiveUpdates w st = (r, ev1)"
    by (simp add: check_flag)
  have ev1: "filter proactive_send ev1 = []"
    using check_outcomes [of w ?st] chk by auto
  show ?thesis
  proof (cases r)
    case (Inl e)
    then show ?thesis
      using idle chk chk' ev1 by (simp add: processMessages_def cycle_body_def)
  next
    case (Inr pm)
    obtain st2 ev3 err where resp: "respond_step w ?st = (st2, ev3, err)"
      by (cases "respond_step w ?st")
    obtain st3 ev4 err' where resp':
      "respond_step w (?st\<lparr>lastProactiveMessage := w_now_sent w\<rparr>) = (st3, ev4, err')"
      by (cases "respond_step w (?st\<lparr>lastProactiveMessage := w_now_sent w\<rparr>)")
    note fr = respond_step_frame [OF resp] respond_step_frame [OF resp']
    show ?thesis
    proof (cases rule: proactive_step_cases [of w ?st pm])
      case skip
      moreover from skip have "pm = None \<or> pm = Some []"
        by (cases pm) (auto simp add: proactive_step_def sendToPoke_def split: if_splits response.splits)
      ultimately show ?thesis
        using idle chk chk' ev1 Inr resp fr
        by (auto simp add: processMessages_def cycle_body_def split: option.splits)
    next
      case (failed e m)
      then show ?thesis
        using idle chk chk' ev1 Inr
        by (auto simp add: processMessages_def cycle_body_def)
    next
      case (sent m)
      then show ?thesis
        using idle chk chk' ev1 Inr resp' fr
        by (auto simp add: processMessages_def cycle_body_def split: option.splits)
    qed
  qed
qed

lemma needsResponse_last:
  "messages \<noteq> [] \<Longrightarrow> msg_from (last messages) = ''Claude'' \<Longrightarrow> needsResponse messages = None"
  by (simp add: needsResponse_def Let_def last_conv_nth)

lemma respond_step_answered:
  assumes "w_messages w = Ok (c, s)" "needsResponse (parseMessages c) = None"
  shows "\<exists>st'. respond_step w st = (st', [MessagesFetched], None)"
  using assms by (simp add: respond_step_def fetchMessages_def Let_def)

lemma parse_answered_log:
  "parseMessages answered_log =
     [\<lparr>msg_from = ''caleb'', msg_content = ''run the tests''\<rparr>,
      \<lparr>msg_from = ''Claude'', msg_content = ''done''\<rparr>]"
  by (simp add: parseMessages_def answered_log_def example_log_def keep_block_def
        push_block_def parse_block_def js_trim_def is_ws_def str_includes_def
        startsWith_def replace_first_def split_str.simps)

subsection \<open>An unchanged log\<close>

text \<open>
  C1, as the code has it. In a cycle that is let in and whose fetch of the conversation
  log returns the version token the agent saw last, the cycle stops at the fetch: there
  is no call of \<^verbatim>\<open>callClaude\<close>, no reply sent, no append to the log, no request to
  the task ledger, and the token stays. The proactive check runs before the fetch, so
  the cycle holds one request to the generative provider exactly when the proactive gate
  is open (24 hours since the last proactive message, local hour from 9 to 20), and
  none otherwise.
\<close>

theorem noop_when_unchanged:
  assumes idle: "\<not> isProcessing st"
    and fetched: "w_messages w = Ok (c, s)"
    and same: "lastProcessedHash st = Some s"
  shows "filter reply_event (snd (processMessages w st)) = []
       \<and> filter task_event (snd (processMessages w st)) = []
       \<and> lastProcessedHash (fst (processMessages w st)) = Some s
       \<and> filter generative_call (snd (processMessages w st)) =
           (if 86400000 \<le> w_now_gate w - lastProactiveMessage st \<and> 9 \<le> w_hour w \<and> w_hour w \<le> 20
            then [ProactivePrompt] else [])
       \<and> (MessagesFetched \<in> set (snd (processMessages w st))
            \<longrightarrow> last (snd (processMessages w st)) = MessagesFetched)"
proof -
  let ?st = "st\<lparr>isProcessing := True\<rparr>"
  let ?gate = "86400000 \<le> w_now_gate w - lastProactiveMessage st \<and> 9 \<le> w_hour w \<and> w_hour w \<le> 20"
  have same': "\<And>t. lastProcessedHash (?st\<lparr>lastProactiveMessage := t\<rparr>) = Some s"
    "lastProcessedHash ?st = Some s"
    using same by simp_all
  have gate: "snd (checkForProactiveUpdates w ?st) = (if ?gate then [ProactivePrompt] else [])"
    using check_events [of w ?st] by simp
  show ?thesis
  proof (cases rule: check_cases [of w ?st])
    case closed
    then show ?thesis
      using idle same gate respond_step_unchanged [OF fetched same'(2)]
      by (simp add: processMessages_def cycle_body_def proactive_step_def)
  next
    case (threw e)
    then show ?thesis
      using idle same gate by (simp add: processMessages_def cycle_body_def)
  next
    case (asked pm)
    show ?thesis
    proof (cases rule: proactive_step_cases [of w ?st pm])
      case skip
      then show ?thesis
        using idle asked same gate respond_step_unchanged [OF fetched same'(2)]
        by (simp add: processMessages_def cycle_body_def)
    next
      case (failed e m)
      then show ?thesis
        using idle asked same gate by (simp add: processMessages_def cycle_body_def)
    next
      case (sent m)
      then show ?thesis
        using idle asked same gate respond_step_unchanged [OF fetched same'(1)]
        by (simp add: processMessages_def cycle_body_def)
    qed
  qed
qed

text \<open>The run of \<open>example_world\<close> from \<open>example_state\<close> is such a cycle.\<close>

theorem noop_when_unchanged_witness:
  "\<not> isProcessing example_state
   \<and> w_messages example_world = Ok (example_log, ''sha1'')
   \<and> lastProcessedHash example_state = Some ''sha1''
   \<and> filter reply_event (snd (processMessages example_world example_state)) = []
   \<and> filter task_event (snd (processMessages example_world example_state)) = []
   \<and> lastProcessedHash (fst (processMessages example_world example_state)) = Some ''sha1''
   \<and> last (snd (processMessages example_world example_state)) = MessagesFetched"
proof -
  have h: "\<not> isProcessing example_state"
    "w_messages example_world = Ok (example_log, ''sha1'')"
    "lastProcessedHash example_state = Some ''sha1''"
    by (simp_all add: example_state_def example_world_def)
  have "MessagesFetched \<in> set (snd (processMessages example_world example_state))"
    by (simp add: example_run)
  with h noop_when_unchanged [OF h] show ?thesis by simp
qed

text \<open>
  C1 as stated asks for no generative call at all in such a cycle. In \<open>example_world\<close>
  the log is unchanged and the gate is open: the cycle prompts the provider once.
\<close>

theorem noop_generative_call_counterexample:
  "\<not> isProcessing example_state
   \<and> w_messages example_world = Ok (example_log, ''sha1'')
   \<and> lastProcessedHash example_state = Some ''sha1''
   \<and> filter generative_call (snd (processMessages example_world example_state)) = [ProactivePrompt]"
  by (simp add: example_run) (simp add: example_world_def example_state_def)

subsection \<open>A log that ends with the agent's own turn\<close>

text \<open>
  C2. When the last parsed turn is from Claude, \<^verbatim>\<open>needsResponse\<close> returns null, and
  a cycle that fetches such a log makes no call of \<^verbatim>\<open>callClaude\<close>, sends no reply and
  appends nothing to the log.
\<close>

theorem no_reply_to_own_message:
  assumes nonempty: "messages \<noteq> []"
    and claude: "msg_from (last messages) = ''Claude''"
    and fetched: "w_messages w = Ok (c, s)"
    and parsed: "parseMessages c = messages"
  shows "needsResponse messages = None
       \<and> filter reply_event (snd (processMessages w st)) = []"
proof -
  have none: "needsResponse (parseMessages c) = None"
    using needsResponse_last [OF nonempty claude] parsed by simp
  have resp: "\<And>t. \<exists>st'. respond_step w t = (st', [MessagesFetched], None)"
    using respond_step_answered [OF fetched none] by simp
  let ?st = "st\<lparr>isProcessing := True\<rparr>"
  have "filter reply_event (snd (processMessages w st)) = []"
  proof (cases "isProcessing st")
    case True
    then show ?thesis by (simp add: processMessages_def)
  next
    case idle: False
    show ?thesis
    proof (cases rule: check_cases [of w ?st])
      case closed
      then show ?thesis
        using idle resp [of ?st]
        by (auto simp add: processMessages_def cycle_body_def proactive_step_def)
    next
      case (threw e)
      then show ?thesis
        using idle by (simp add: processMessages_def cycle_body_def)
    next
      case (asked pm)
      show ?thesis
      proof (cases rule: proactive_step_cases [of w ?st pm])
        case skip
        then show ?thesis
          using idle asked resp [of ?st]
          by (auto simp add: processMessages_def cycle_body_def)
      next
        case (failed e m)
        then show ?thesis
          using idle asked by (simp add: processMessages_def cycle_body_def)
      next
        case (sent m)
        then show ?thesis
          using idle asked resp [of "?st\<lparr>lastProactiveMessage := w_now_sent w\<rparr>"]
          by (auto simp add: processMessages_def cycle_body_def)
      qed
    qed
  qed
  with none parsed show ?thesis by simp
qed

text \<open>The log \<open>answered_log\<close> ends with a turn of Claude.\<close>

theorem no_reply_to_own_message_witness:
  "parseMessages answered_log =
     [\<lparr>msg_from = ''caleb'', msg_content = ''run the tests''\<rparr>,
      \<lparr>msg_from = ''Claude'', msg_content = ''done''\<rparr>]
   \<and> needsResponse (parseMessages answered_log) = None
   \<and> filter reply_event
       (snd (processMessages (example_world\<lparr>w_messages := Ok (answered_log, ''sha3'')\<rparr>)
              example_state)) = []"
  using no_reply_to_own_message
    [of "parseMessages answered_log" "example_world\<lparr>w_messages := Ok (answered_log, ''sha3'')\<rparr>"
        answered_log "''sha3''" example_state]
  by (simp add: parse_answered_log)

subsection \<open>The proactive gate\<close>

text \<open>
  C3, as the code has it. A proactive message is sent only if at least 24 hours have
  passed since the last one and the local hour is from 9 to 20. With the last one 23
  hours ago nothing is sent and the time stamp stays. With the last one 25 hours ago and
  the local hour 14, one proactive message is sent when the provider answers the prompt
  with a text that is not empty after trimming and does not contain SKIP; the time stamp
  is then updated when the send succeeds.
\<close>

theorem proactive_gate:
  "(filter proactive_send (snd (processMessages w st)) \<noteq> []
      \<longrightarrow> 86400000 \<le> w_now_gate w - lastProactiveMessage st \<and> 9 \<le> w_hour w \<and> w_hour w \<le> 20)
   \<and> (lastProactiveMessage st = w_now_gate w - 23 * 3600000
      \<longrightarrow> filter proactive_send (snd (processMessages w st)) = []
          \<and> lastProactiveMessage (fst (processMessages w st)) = lastProactiveMessage st)
   \<and> (\<not> isProcessing st \<and> lastProactiveMessage st = w_now_gate w - 25 * 3600000 \<and> w_hour w = 14
       \<and> w_proactive w = Ok text \<and> js_trim text \<noteq> [] \<and> \<not> str_includes (js_trim text) ''SKIP''
      \<longrightarrow> filter proactive_send (snd (processMessages w st)) = [PokeSend Proactive (js_trim text)]
          \<and> (w_poke_proactive w = Ok ()
              \<longrightarrow> lastProactiveMessage (fst (processMessages w st)) = w_now_sent w))"
proof (cases "isProcessing st")
  case True
  then show ?thesis by (simp add: processMessages_def)
next
  case False
  note part = proactive_part [OF False, of w]
  have a: "filter proactive_send (snd (processMessages w st)) \<noteq> []
      \<longrightarrow> 86400000 \<le> w_now_gate w - lastProactiveMessage st \<and> 9 \<le> w_hour w \<and> w_hour w \<le> 20"
    using part check_gate [of w st]
    by (cases "checkForProactiveUpdates w st")
       (auto split: sum.splits option.splits if_splits)
  have b: "lastProactiveMessage st = w_now_gate w - 23 * 3600000
      \<longrightarrow> filter proactive_send (snd (processMessages w st)) = []
          \<and> lastProactiveMessage (fst (processMessages w st)) = lastProactiveMessage st"
  proof
    assume "lastProactiveMessage st = w_now_gate w - 23 * 3600000"
    then have "checkForProactiveUpdates w st = (Inr None, [])"
      by (simp add: checkForProactiveUpdates_def)
    with part show "filter proactive_send (snd (processMessages w st)) = []
          \<and> lastProactiveMessage (fst (processMessages w st)) = lastProactiveMessage st"
      by simp
  qed
  have c: "\<not> isProcessing st \<and> lastProactiveMessage st = w_now_gate w - 25 * 3600000 \<and> w_hour w = 14
       \<and> w_proactive w = Ok text \<and> js_trim text \<noteq> [] \<and> \<not> str_includes (js_trim text) ''SKIP''
      \<longrightarrow> filter proactive_send (snd (processMessages w st)) = [PokeSend Proactive (js_trim text)]
          \<and> (w_poke_proactive w = Ok ()
              \<longrightarrow> lastProactiveMessage (fst (processMessages w st)) = w_now_sent w)"
  proof
    assume h: "\<not> isProcessing st \<and> lastProactiveMessage st = w_now_gate w - 25 * 3600000 \<and> w_hour w = 14
       \<and> w_proactive w = Ok text \<and> js_trim text \<noteq> [] \<and> \<not> str_includes (js_trim text) ''SKIP''"
    then have "js_trim text \<noteq> ''SKIP''"
      by (auto simp add: str_includes_def)
    with h have "checkForProactiveUpdates w st = (Inr (Some (js_trim text)), [ProactivePrompt])"
      by (simp add: checkForProactiveUpdates_def Let_def)
    with part h show "filter proactive_send (snd (processMessages w st)) = [PokeSend Proactive (js_trim text)]
          \<and> (w_poke_proactive w = Ok ()
              \<longrightarrow> lastProactiveMessage (fst (processMessages w st)) = w_now_sent w)"
      by simp
  qed
  from a b c show ?thesis by blast
qed


text \<open>
  Two runs at 14 h: 25 hours after the last proactive message, with a provider that
  answers with a greeting, one message is sent and the time stamp is updated; 23 hours
  after it, nothing is sent.
\<close>

theorem proactive_gate_witness:
  "\<not> isProcessing example_state
   \<and> lastProactiveMessage example_state = w_now_gate example_world - 25 * 3600000
   \<and> w_hour example_world = 14
   \<and> filter proactive_send
        (snd (processMessages (example_world\<lparr>w_proactive := Ok '' Good morning ''\<rparr>) example_state))
       = [PokeSend Proactive ''Good morning'']
   \<and> lastProactiveMessage
        (fst (processMessages (example_world\<lparr>w_proactive := Ok '' Good morning ''\<rparr>) example_state))
       = 1700000000900
   \<and> filter proactive_send
        (snd (processMessages example_world (example_state\<lparr>lastProactiveMessage := 1699917200000\<rparr>)))
       = []"
proof -
  let ?w = "example_world\<lparr>w_proactive := Ok '' Good morning ''\<rparr>"
  let ?recent = "example_state\<lparr>lastProactiveMessage := 1699917200000\<rparr>"
  have trim: "js_trim '' Good morning '' = ''Good morning''"
    by (simp add: js_trim_def is_ws_def)
  have h: "\<not> isProcessing example_state"
    "lastProactiveMessage example_state = w_now_gate ?w - 25 * 3600000"
    "w_hour ?w = 14" "w_proactive ?w = Ok '' Good morning ''"
    "js_trim '' Good morning '' \<noteq> []"
    "\<not> str_includes (js_trim '' Good morning '') ''SKIP''"
    "w_poke_proactive ?w = Ok ()" "w_now_sent ?w = 1700000000900"
    by (simp_all add: trim) (simp_all add: example_state_def example_world_def str_includes_def)
  have r: "lastProactiveMessage ?recent = w_now_gate example_world - 23 * 3600000"
    by (simp add: example_world_def)
  have g: "w_now_gate ?w = w_now_gate example_world" "w_hour example_world = 14"
    by (simp_all add: example_world_def)
  show ?thesis
    using proactive_gate [of ?w example_state "'' Good morning ''"]
      proactive_gate [of example_world ?recent "''x''"] h r g
    by (simp add: trim)
qed

text \<open>
  C3 as stated promises one send whenever 25 hours have passed and the hour is 14. In
  \<open>example_world\<close> both hold and the provider answers SKIP: nothing is sent and the
  time stamp stays.
\<close>

theorem proactive_gate_skip_counterexample:
  "\<not> isProcessing example_state
   \<and> lastProactiveMessage example_state = w_now_gate example_world - 25 * 3600000
   \<and> w_hour example_world = 14
   \<and> filter proactive_send (snd (processMessages example_world example_state)) = []
   \<and> lastProactiveMessage (fst (processMessages example_world example_state))
       = lastProactiveMessage example_state"
  by (simp add: example_run) (simp add: example_world_def example_state_def)




subsection \<open>The guard\<close>




subsection \<open>The append to the conversation log\<close>



subsection \<open>Task ids\<close>

lemma digit_cases:
  assumes "(n::nat) < 10"
  shows "n \<in> {0, 1, 2, 3, 4, 5, 6, 7, 8, 9}"
  using assms by auto

lemma digit_value_nth: "n < 10 \<Longrightarrow> digit_value (''0123456789'' ! n) = n"
  by (drule digit_cases) (auto simp add: digit_value_def)

lemma digit_not_minus: "n < 10 \<Longrightarrow> ''0123456789'' ! n \<noteq> CHR ''-''"
  by (drule digit_cases) auto

lemma read_nat_snoc: "read_nat (xs @ [c]) = 10 * read_nat xs + digit_value c"
  by (simp add: read_nat_def)

lemma read_show_nat: "read_nat (show_nat n) = n"
proof (induction n rule: show_nat.induct)
  case (1 n)
  show ?case
  proof (cases "n < 10")
    case True
    then show ?thesis
      by (subst show_nat.simps) (simp add: read_nat_def digit_value_nth)
  next
    case False
    then have "read_nat (show_nat n) = 10 * read_nat (show_nat (n div 10)) + digit_value (''0123456789'' ! (n mod 10))"
      by (subst show_nat.simps) (simp add: read_nat_snoc)
    also have "\<dots> = 10 * (n div 10) + n mod 10"
      using 1 False by (simp add: digit_value_nth)
    finally show ?thesis by simp
  qed
qed

lemma show_nat_head: "\<exists>c cs. show_nat n = c # cs \<and> c \<noteq> CHR ''-''"
proof (induction n rule: show_nat.induct)
  case (1 n)
  show ?case
  proof (cases "n < 10")
    case True
    then show ?thesis
      by (subst show_nat.simps) (simp add: digit_not_minus)
  next
    case False
    with 1 obtain c cs where "show_nat (n div 10) = c # cs" "c \<noteq> CHR ''-''"
      by blast
    with False show ?thesis
      by (subst show_nat.simps) simp
  qed
qed

lemma read_show_int: "read_int (show_int i) = i"
proof (cases "i < 0")
  case True
  then show ?thesis
    by (simp add: show_int_def read_int_def read_show_nat)
next
  case False
  obtain c cs where "show_nat (nat i) = c # cs" "c \<noteq> CHR ''-''"
    using show_nat_head by blast
  moreover have "read_nat (show_nat (nat i)) = nat i"
    by (rule read_show_nat)
  ultimately show ?thesis
    using False by (simp add: show_int_def read_int_def)
qed

lemma createTask_id:
  "createTask tw d p = (Some taskId, evs) \<Longrightarrow> taskId = ''task_'' @ show_int (getTime (tw_now tw))"
  by (auto simp add: createTask_def commitTask_def Let_def
           split: response.splits prod.splits if_splits)

lemma task_number_id: "task_number (''task_'' @ show_int t) = t"
  by (simp add: task_number_def read_show_int)

lemma parse_example_log:
  "parseMessages example_log = [\<lparr>msg_from = ''caleb'', msg_content = ''run the tests''\<rparr>]"
  by (simp add: parseMessages_def example_log_def keep_block_def
        push_block_def parse_block_def js_trim_def is_ws_def str_includes_def
        startsWith_def replace_first_def split_str.simps)

lemma two_tasks_matches:
  "task_matches two_tasks =
     [\<lparr>whole = ''[CREATE_TASK priority=high]a[/CREATE_TASK]'', priority = ''high'', body = ''a''\<rparr>,
      \<lparr>whole = ''[CREATE_TASK priority=low]b[/CREATE_TASK]'', priority = ''low'', body = ''b''\<rparr>]"
  by (simp add: two_tasks_def task_matches.simps match_task_at_def task_open_def task_close_def
        match_priority_def)

lemma example_clock: "show_int 1700000000000 = ''1700000000000''"
  by (simp add: show_int_def show_nat.simps)

lemma example_createTask:
  "fst (createTask example_task_world d p) = Some ''task_1700000000000''"
  by (simp add: createTask_def commitTask_def example_task_world_def example_date_def
        example_clock Let_def)

lemma two_tasks_run:
  "fst (run_tasks (\<lambda>k. example_task_world) 0 (task_matches two_tasks) two_tasks) =
     ''[Task created: task_1700000000000][Task created: task_1700000000000]''"
  by (simp add: two_tasks_matches task_step_def createTask_def commitTask_def
        example_task_world_def example_date_def example_clock Let_def)
     (simp add: two_tasks_def replace_first_def)

lemma reply_step_sends:
  "w_claude w = Ok text \<Longrightarrow>
   PokeSend Reply (fst (run_tasks (w_tasks w) 0 (task_matches text) text))
     \<in> set (fst (snd (reply_step w st c s ms)))"
  by (cases "run_tasks (w_tasks w) 0 (task_matches text) text")
     (auto simp add: reply_step_def Let_def callClaude_def sendToPoke_def logToGitHub_def
        split: response.splits)

lemma createTask_id_fst:
  "fst (createTask tw d p) = Some taskId \<Longrightarrow> taskId = ''task_'' @ show_int (getTime (tw_now tw))"
  using createTask_id [of tw d p taskId "snd (createTask tw d p)"]
  by (cases "createTask tw d p") simp

text \<open>
  C9, as the code has it. The id of a created task is \<^verbatim>\<open>task_\<close> followed by the
  clock reading, in milliseconds, taken at its creation. So for two tasks created in
  one cycle the numbers of the ids are the two readings: the ids are distinct exactly
  when the readings differ, and the second is the greater exactly when the clock has
  advanced between the two creations.
\<close>

theorem task_ids_follow_clock:
  assumes first: "fst (createTask tw1 d1 p1) = Some id1"
    and second: "fst (createTask tw2 d2 p2) = Some id2"
  shows "task_number id1 = getTime (tw_now tw1)
       \<and> task_number id2 = getTime (tw_now tw2)
       \<and> (id1 = id2) = (getTime (tw_now tw1) = getTime (tw_now tw2))
       \<and> (task_number id1 < task_number id2) = (getTime (tw_now tw1) < getTime (tw_now tw2))"
proof -
  have n1: "task_number id1 = getTime (tw_now tw1)"
    using createTask_id_fst [OF first] task_number_id by simp
  have n2: "task_number id2 = getTime (tw_now tw2)"
    using createTask_id_fst [OF second] task_number_id by simp
  have "(id1 = id2) = (getTime (tw_now tw1) = getTime (tw_now tw2))"
  proof
    assume "id1 = id2"
    then have "task_number id1 = task_number id2" by simp
    with n1 n2 show "getTime (tw_now tw1) = getTime (tw_now tw2)" by simp
  next
    assume "getTime (tw_now tw1) = getTime (tw_now tw2)"
    with createTask_id_fst [OF first] createTask_id_fst [OF second] show "id1 = id2" by simp
  qed
  with n1 n2 show ?thesis by simp
qed

lemma later_createTask:
  "fst (createTask later_task_world d p) = Some ''task_1700000000250''"
  by (simp add: createTask_def commitTask_def later_task_world_def example_task_world_def
        example_date_def show_int_def show_nat.simps Let_def)

text \<open>Two creations 250 ms apart.\<close>

theorem task_ids_follow_clock_witness:
  "fst (createTask example_task_world ''a'' ''high'') = Some ''task_1700000000000''
   \<and> fst (createTask later_task_world ''b'' ''low'') = Some ''task_1700000000250''
   \<and> task_number ''task_1700000000000'' = 1700000000000
   \<and> task_number ''task_1700000000250'' = 1700000000250
   \<and> ''task_1700000000000'' \<noteq> ''task_1700000000250''
   \<and> task_number ''task_1700000000000'' < task_number ''task_1700000000250''"
  using task_ids_follow_clock
    [of example_task_world "''a''" "''high''" "''task_1700000000000''"
        later_task_world "''b''" "''low''" "''task_1700000000250''"]
  by (simp add: example_createTask later_createTask)
     (simp add: later_task_world_def example_task_world_def example_date_def)

text \<open>
  C9 as stated asks for distinct ids whenever two directives run in one cycle. Here both
  creations read the same millisecond: both tasks get the id
  \<^verbatim>\<open>task_1700000000000\<close>, and the reply names it twice.
\<close>

theorem same_millisecond_counterexample:
  "w_tasks (example_world\<lparr>w_claude := Ok two_tasks\<rparr>) 0 = example_task_world
   \<and> w_tasks (example_world\<lparr>w_claude := Ok two_tasks\<rparr>) 1 = example_task_world
   \<and> fst (createTask example_task_world ''a'' ''high'') = Some ''task_1700000000000''
   \<and> fst (createTask example_task_world ''b'' ''low'') = Some ''task_1700000000000''
   \<and> PokeSend Reply ''[Task created: task_1700000000000][Task created: task_1700000000000]''
       \<in> set (snd (processMessages (example_world\<lparr>w_claude := Ok two_tasks\<rparr>) fresh_state))"
proof -
  let ?w = "example_world\<lparr>w_claude := Ok two_tasks\<rparr>"
  let ?st = "fresh_state\<lparr>isProcessing := True\<rparr>"
  have tasks: "w_tasks ?w = (\<lambda>k. example_task_world)" "w_claude ?w = Ok two_tasks"
    by (simp_all add: example_world_def)
  have sent: "PokeSend Reply ''[Task created: task_1700000000000][Task created: task_1700000000000]''
      \<in> set (fst (snd (reply_step ?w ?st example_log ''sha1'' (parseMessages example_log))))"
    using reply_step_sends [OF tasks(2), of ?st example_log "''sha1''" "parseMessages example_log"]
    by (simp only: tasks(1) two_tasks_run)
  have "respond_step ?w ?st =
      (case reply_step ?w ?st example_log ''sha1'' (parseMessages example_log) of
         (st', evs, err) \<Rightarrow> (st', [MessagesFetched] @ evs, err))"
    by (simp add: respond_step_def fetchMessages_def example_world_def fresh_state_def
          example_state_def parse_example_log needsResponse_def)
  moreover have "checkForProactiveUpdates ?w ?st = (Inr None, [ProactivePrompt])"
    by (simp add: checkForProactiveUpdates_def example_world_def fresh_state_def
          example_state_def js_trim_def is_ws_def str_includes_def)
  ultimately have "PokeSend Reply ''[Task created: task_1700000000000][Task created: task_1700000000000]''
      \<in> set (snd (processMessages ?w fresh_state))"
    using sent
    by (cases "reply_step ?w ?st example_log ''sha1'' (parseMessages example_log)")
       (simp add: processMessages_def cycle_body_def proactive_step_def fresh_state_def
          example_state_def)
  then show ?thesis
    by (simp add: example_createTask tasks)
qed

subsection \<open>Task directives\<close>












subsection \<open>Blocks with the title of the preamble\<close>

text \<open>
  The delimiter cannot overlap itself, so splitting a text at the delimiter splits a
  text joined by the delimiter into the blocks of its two parts.
\<close>

lemma index_of_bound: "index_of p s = Some i \<Longrightarrow> i + length p \<le> length s"
proof (induction s arbitrary: i)
  case Nil
  then show ?case by (simp split: if_splits)
next
  case (Cons c cs)
  then show ?case
    by (auto dest: prefix_length_le split: if_splits)
qed

lemma delimiter_straddle:
  assumes sep: "sep = ''---\<newline>''" and "x \<noteq> []"
  shows "prefix sep (x @ sep @ y) = prefix sep x"
proof (cases "4 \<le> length x")
  case True
  show ?thesis
  proof
    assume "prefix sep (x @ sep @ y)"
    moreover have "prefix x (x @ sep @ y)" by simp
    moreover have "length sep \<le> length x" using True sep by simp
    ultimately show "prefix sep x"
      by (rule prefix_length_prefix)
  next
    assume "prefix sep x"
    then show "prefix sep (x @ sep @ y)"
      by (rule prefix_prefix)
  qed
next
  case False
  with assms(2) obtain a where "x = [a] \<or> (\<exists>b. x = [a, b]) \<or> (\<exists>b c. x = [a, b, c])"
    by (cases x; cases "tl x"; cases "tl (tl x)"; cases "tl (tl (tl x))") auto
  then show ?thesis by (auto simp add: sep)
qed

lemma index_of_delimiter:
  assumes sep: "sep = ''---\<newline>''"
  shows "index_of sep (x @ sep @ y) =
     (case index_of sep x of None \<Rightarrow> Some (length x) | Some i \<Rightarrow> Some i)"
proof (induction x)
  case Nil
  have "prefix sep (sep @ y)" by simp
  moreover have "sep @ y \<noteq> []" using sep by simp
  ultimately have "index_of sep (sep @ y) = Some 0"
    by (cases "sep @ y") simp_all
  moreover have "index_of sep [] = None" using sep by simp
  ultimately show ?case by simp
next
  case (Cons c cs)
  have "prefix sep ((c # cs) @ sep @ y) = prefix sep (c # cs)"
    using sep by (rule delimiter_straddle) simp
  then have "prefix sep (c # cs @ sep @ y) = prefix sep (c # cs)"
    by simp
  with Cons.IH show ?case
    by (simp del: prefix_code split: option.splits)
qed

lemma split_delimiter:
  assumes sep: "sep = ''---\<newline>''"
  shows "split_str sep (x @ sep @ y) = split_str sep x @ split_str sep y"
proof (induction "length x" arbitrary: x rule: less_induct)
  case less
  have ne: "sep \<noteq> []" and len: "length sep = 4"
    using sep by simp_all
  show ?case
  proof (cases "index_of sep x")
    case None
    then have "index_of sep (x @ sep @ y) = Some (length x)"
      by (simp add: index_of_delimiter [OF sep])
    then have "split_str sep (x @ sep @ y) = x # split_str sep y"
      using ne by (subst split_str.simps) simp
    moreover from None have "split_str sep x = [x]"
      using ne by (subst split_str.simps) simp
    ultimately show ?thesis by simp
  next
    case (Some i)
    from index_of_bound [OF Some] have bound: "i + length sep \<le> length x" .
    from Some have "index_of sep (x @ sep @ y) = Some i"
      by (simp add: index_of_delimiter [OF sep])
    then have "split_str sep (x @ sep @ y) =
        take i x # split_str sep (drop (i + length sep) x @ sep @ y)"
      using bound ne by (subst split_str.simps) simp
    moreover have "split_str sep (drop (i + length sep) x @ sep @ y) =
        split_str sep (drop (i + length sep) x) @ split_str sep y"
      using bound len by (intro less) simp
    moreover from Some have "split_str sep x = take i x # split_str sep (drop (i + length sep) x)"
      using ne by (subst split_str.simps) simp
    ultimately show ?thesis by simp
  qed
qed

lemma fold_push_block:
  "fold push_block bs acc = acc @ fold push_block bs []"
proof (induction bs arbitrary: acc)
  case Nil
  then show ?case by simp
next
  case (Cons b bs)
  have "fold push_block bs (push_block b acc) = push_block b acc @ fold push_block bs []"
    by (rule Cons.IH)
  moreover have "fold push_block bs (push_block b []) = push_block b [] @ fold push_block bs []"
    by (rule Cons.IH)
  moreover have "push_block b acc = acc @ push_block b []"
    by (simp add: push_block_def split: option.splits)
  ultimately show ?case by simp
qed

lemma parseMessages_delimiter:
  "parseMessages (x @ ''---\<newline>'' @ y) = parseMessages x @ parseMessages y"
proof -
  have "fold push_block (filter keep_block (split_str ''---\<newline>'' (x @ ''---\<newline>'' @ y))) [] =
      fold push_block (filter keep_block (split_str ''---\<newline>'' y))
        (fold push_block (filter keep_block (split_str ''---\<newline>'' x)) [])"
    by (simp only: split_delimiter [OF refl] filter_append fold_append o_apply)
  also have "\<dots> = fold push_block (filter keep_block (split_str ''---\<newline>'' x)) []
      @ fold push_block (filter keep_block (split_str ''---\<newline>'' y)) []"
    by (rule fold_push_block)
  finally show ?thesis
    by (simp only: parseMessages_def Let_def)
qed

lemma parseMessages_headed:
  assumes "str_includes b ''# Messages from Poke''" "\<not> str_includes b ''---\<newline>''"
  shows "parseMessages b = []"
proof -
  from assms(2) have "split_str ''---\<newline>'' b = [b]"
    by (subst split_str.simps) (simp add: str_includes_def)
  with assms(1) show ?thesis
    by (simp add: parseMessages_def keep_block_def)
qed

text \<open>
  C10. A block, that is a text without the delimiter, that contains
  \<^verbatim>\<open># Messages from Poke\<close> anywhere contributes no turn: alone it parses to nothing,
  and as the first, the last or an inner block of any text the result is that of the
  text without it.
\<close>

theorem headed_block_discarded:
  assumes header: "str_includes b ''# Messages from Poke''"
    and block: "\<not> str_includes b ''---\<newline>''"
  shows "parseMessages b = []
       \<and> parseMessages (b @ ''---\<newline>'' @ post) = parseMessages post
       \<and> parseMessages (pre @ ''---\<newline>'' @ b) = parseMessages pre
       \<and> parseMessages (pre @ ''---\<newline>'' @ b @ ''---\<newline>'' @ post)
           = parseMessages (pre @ ''---\<newline>'' @ post)"
  by (simp only: parseMessages_delimiter parseMessages_headed [OF header block]
        append_Nil append_Nil2 simp_thms)

text \<open>
  The block \<open>headed_block\<close> has a speaker line and a body, and would be the turn
  \<open>hello\<close> of caleb; with the title in it, it is dropped.
\<close>

theorem headed_block_discarded_witness:
  "str_includes headed_block ''# Messages from Poke''
   \<and> \<not> str_includes headed_block ''---\<newline>''
   \<and> parse_block headed_block = Some \<lparr>msg_from = ''caleb'', msg_content = ''hello''\<rparr>
   \<and> parseMessages (headed_block @ ''---\<newline>'') = []
   \<and> parseMessages (headed_block @ ''---\<newline>'' @ example_log)
       = [\<lparr>msg_from = ''caleb'', msg_content = ''run the tests''\<rparr>]
   \<and> parseMessages (example_log @ ''---\<newline>'' @ headed_block @ ''---\<newline>'' @ example_log)
       = parseMessages (example_log @ ''---\<newline>'' @ example_log)"
proof -
  have h: "str_includes headed_block ''# Messages from Poke''"
    "\<not> str_includes headed_block ''---\<newline>''"
    by (simp_all add: headed_block_def str_includes_def)
  have p: "parse_block headed_block = Some \<lparr>msg_from = ''caleb'', msg_content = ''hello''\<rparr>"
    by (simp add: headed_block_def parse_block_def js_trim_def is_ws_def
          startsWith_def replace_first_def split_str.simps)
  have e: "parseMessages [] = []"
    by (simp add: parseMessages_def split_str.simps keep_block_def js_trim_def)
  show ?thesis
    using headed_block_discarded [OF h, of "[]" example_log]
      headed_block_discarded [OF h, of example_log example_log] h p e parse_example_log
    by simp
qed

end
